theory Spec2Isabelle
  imports Main "HOL-Library.Char_ord" "HOL-Library.List_Lexorder" "HOL-Library.Multiset"
begin

section \<open>Files, handles and errors\<close>

text \<open>
  The program is \<^verbatim>\<open>src/toil/test/sort/sort.py\<close>, a Python 2 module (its \<^verbatim>\<open>/\<close> on
  integers is floor division, its \<^verbatim>\<open>str\<close> is a byte string and \<^verbatim>\<open><=\<close> on \<^verbatim>\<open>str\<close>
  compares byte-wise and lexicographically). A file is its content, a list of bytes
  (\<^typ>\<open>string\<close>, ordered by \<open>Char_ord\<close> and \<open>List_Lexorder\<close>); an open read handle is the
  part of the file that has not been read yet; an output handle is what has been written to
  it so far. File offsets and sizes are natural numbers (\<^verbatim>\<open>os.path.getsize\<close> and the
  constant 0 are the only sources of offsets in the program); the one place where the
  program subtracts two of them, the size given to \<^verbatim>\<open>read\<close>, is computed over the
  integers.
\<close>

datatype error = AssertionError | IOError | NoSuchFile | RuntimeError

abbreviation nl :: char where
  "nl \<equiv> CHR 0x0A"

text \<open>\<^verbatim>\<open>fileHandle.seek(pos)\<close> on a freshly opened file: seeking past the end is allowed
  and leaves nothing to read.\<close>

definition seek :: "string \<Rightarrow> nat \<Rightarrow> string" where
  "seek file pos = drop pos file"

text \<open>\<^verbatim>\<open>fileHandle.read(n)\<close>: at most \<open>n\<close> bytes, fewer at the end of the file; a
  negative \<open>n\<close> reads everything that is left.\<close>

definition fread :: "string \<Rightarrow> int \<Rightarrow> string" where
  "fread fileHandle n = (if n < 0 then fileHandle else take (nat n) fileHandle)"

text \<open>\<^verbatim>\<open>fileHandle.readline()\<close>: the bytes up to and including the next newline, or up
  to the end of the file; the empty string at the end of the file. The second component is
  the handle afterwards.\<close>

fun readline :: "string \<Rightarrow> string \<times> string" where
  "readline [] = ([], [])"
| "readline (c # cs) =
     (if c = nl then ([c], cs)
      else (case readline cs of (line, rest) \<Rightarrow> (c # line, rest)))"

lemma readline_append: "fst (readline h) @ snd (readline h) = h"
  by (induction h) (auto split: prod.splits)

lemma readline_length: "length (fst (readline h)) + length (snd (readline h)) = length h"
  by (induction h) (auto split: prod.splits)

lemma readline_nonempty: "h \<noteq> [] \<Longrightarrow> fst (readline h) \<noteq> []"
  by (cases h) (auto split: prod.splits)

lemma readline_rest_shorter: "h \<noteq> [] \<Longrightarrow> length (snd (readline h)) < length h"
  using readline_length [of h] readline_nonempty [of h]
  by (cases "fst (readline h)") auto

text \<open>\<^verbatim>\<open>fileHandle.readlines()\<close>: \<^verbatim>\<open>readline\<close> repeated until it returns the empty
  string.\<close>

function readlines :: "string \<Rightarrow> string list" where
  "readlines h =
     (if h = [] then []
      else (case readline h of (line, rest) \<Rightarrow> line # readlines rest))"
  by pat_completeness auto
termination
proof (relation "measure length")
  show "wf (measure length)" by simp
next
  fix h line rest
  assume "h \<noteq> []" and "(line, rest) = readline h"
  then have "rest = snd (readline h)" by (metis snd_conv)
  with \<open>h \<noteq> []\<close> show "(rest, h) \<in> measure length"
    by (simp add: readline_rest_shorter)
qed

declare readlines.simps [simp del]

lemma readlines_Nil [simp]: "readlines [] = []"
  by (simp add: readlines.simps)

lemma readlines_step:
  "h \<noteq> [] \<Longrightarrow> readlines h = fst (readline h) # readlines (snd (readline h))"
  by (subst readlines.simps) (simp split: prod.splits)

section \<open>The sorter\<close>

text \<open>\<^verbatim>\<open>sort(file)\<close> reads all lines, sorts the list (\<^verbatim>\<open>lines.sort()\<close>: byte-wise
  lexicographic order on whole lines, terminators included) and writes the lines back one
  after the other into the emptied file. The result is the new content of the file.\<close>

definition write_lines :: "string \<Rightarrow> string list \<Rightarrow> string" where
  "write_lines fileHandle lines = foldl (\<lambda>out line. out @ line) fileHandle lines"

definition sort_file :: "string \<Rightarrow> string" where
  "sort_file file = (let lines = readlines file; lines = sort lines in write_lines [] lines)"

section \<open>The merger\<close>

text \<open>
  \<^verbatim>\<open>merge(fileHandle1, fileHandle2, outputFileHandle)\<close>. The state of the loops is the
  buffered line \<open>line2\<close>, the handle of the second input and the log of the calls of
  \<^verbatim>\<open>outputFileHandle.write\<close> so far, oldest first. Each entry of the log holds the bytes
  written and, as a ghost field, the input the line was read from (the call sites that
  write \<open>line2\<close> give \<open>Input2\<close>, the one that writes \<open>line1\<close> gives \<open>Input1\<close>).
\<close>

datatype source = Input1 | Input2

type_synonym merge_state = "string \<times> string \<times> (source \<times> string) list"

text \<open>The inner loop \<^verbatim>\<open>while line2 != '' and line2 <= line1\<close>.\<close>

function merge_while :: "string \<Rightarrow> merge_state \<Rightarrow> merge_state" where
  "merge_while line1 (line2, fileHandle2, out) =
     (if line2 \<noteq> [] \<and> line2 \<le> line1
      then merge_while line1
             (fst (readline fileHandle2), snd (readline fileHandle2), out @ [(Input2, line2)])
      else (line2, fileHandle2, out))"
  by pat_completeness auto
termination
  by (relation "measure (\<lambda>(line1, line2, fileHandle2, out). length line2 + length fileHandle2)")
     (auto simp: readline_length)

declare merge_while.simps [simp del]

text \<open>The loop \<^verbatim>\<open>for line1 in fileHandle1.readlines()\<close>, over the list that
  \<^verbatim>\<open>readlines\<close> returned.\<close>

fun merge_for :: "string list \<Rightarrow> merge_state \<Rightarrow> merge_state" where
  "merge_for [] st = st"
| "merge_for (line1 # lines1) st =
     (case merge_while line1 st of
        (line2, fileHandle2, out) \<Rightarrow>
          merge_for lines1 (line2, fileHandle2, out @ [(Input1, line1)]))"

text \<open>The final loop \<^verbatim>\<open>while line2 != ''\<close>.\<close>

function merge_rest :: "merge_state \<Rightarrow> merge_state" where
  "merge_rest (line2, fileHandle2, out) =
     (if line2 \<noteq> []
      then merge_rest
             (fst (readline fileHandle2), snd (readline fileHandle2), out @ [(Input2, line2)])
      else (line2, fileHandle2, out))"
  by pat_completeness auto
termination
  by (relation "measure (\<lambda>(line2, fileHandle2, out). length line2 + length fileHandle2)")
     (auto simp: readline_length)

declare merge_rest.simps [simp del]

text \<open>\<open>merge_log\<close> is the log of writes of a whole call of \<^verbatim>\<open>merge\<close>, \<open>merge\<close> the
  lines written in order, and \<open>merge_output\<close> the content of an output file that was empty
  before and accepts every write.\<close>

definition merge_log :: "string \<Rightarrow> string \<Rightarrow> (source \<times> string) list" where
  "merge_log fileHandle1 fileHandle2 =
     (case readline fileHandle2 of
        (line2, fileHandle2') \<Rightarrow>
          snd (snd (merge_rest (merge_for (readlines fileHandle1) (line2, fileHandle2', [])))))"

definition merge :: "string \<Rightarrow> string \<Rightarrow> string list" where
  "merge fileHandle1 fileHandle2 = map snd (merge_log fileHandle1 fileHandle2)"

definition merge_output :: "string \<Rightarrow> string \<Rightarrow> string" where
  "merge_output fileHandle1 fileHandle2 = write_lines [] (merge fileHandle1 fileHandle2)"






section \<open>Splitting a file\<close>

text \<open>\<^verbatim>\<open>copySubRangeOfFile(inputFile, fileStart, fileEnd, outputFileHandle)\<close>; the result
  is the output handle after the write, or the failed assertion.\<close>

definition copySubRangeOfFile :: "string \<Rightarrow> nat \<Rightarrow> nat \<Rightarrow> string \<Rightarrow> error + string" where
  "copySubRangeOfFile inputFile fileStart fileEnd outputFileHandle =
     (let fileHandle = seek inputFile fileStart;
          data = fread fileHandle (int fileEnd - int fileStart)
      in if int (length data) \<noteq> int fileEnd - int fileStart then Inl AssertionError
         else Inr (outputFileHandle @ data))"

text \<open>\<^verbatim>\<open>getMidPoint(file, fileStart, fileEnd)\<close>, with its four assertions.\<close>

definition getMidPoint :: "string \<Rightarrow> nat \<Rightarrow> nat \<Rightarrow> error + nat" where
  "getMidPoint file fileStart fileEnd =
     (let midPoint = (fileStart + fileEnd) div 2 in
      if \<not> midPoint \<ge> fileStart then Inl AssertionError
      else let line = fst (readline (seek file midPoint)) in
      if \<not> length line \<ge> 1 then Inl AssertionError
      else if length line + midPoint < fileEnd then Inr (midPoint + length line - 1)
      else let line = fst (readline (seek file fileStart)) in
      if \<not> length line \<ge> 1 then Inl AssertionError
      else if \<not> length line + fileStart \<le> fileEnd then Inl AssertionError
      else Inr (length line + fileStart - 1))"

text \<open>The bytes of a file at the offsets \<open>[fileStart, fileEnd)\<close>.\<close>

definition byte_range :: "string \<Rightarrow> nat \<Rightarrow> nat \<Rightarrow> string" where
  "byte_range file fileStart fileEnd = take (fileEnd - fileStart) (drop fileStart file)"

section \<open>The file store and the jobs\<close>

text \<open>
  Modelled from the spec: \<^verbatim>\<open>job.fileStore\<close> (toil's file store is used by the program
  but is not part of it). The spec gives it three operations, \<^verbatim>\<open>write(localData)\<close>
  returning a handle, \<^verbatim>\<open>read(handle)\<close> returning the content or a stream, and
  \<^verbatim>\<open>delete(handle)\<close>. The store is a map from handles to contents and a counter for
  the next fresh handle; reading a handle that is not in the store fails.
\<close>

type_synonym fileID = nat

record fileStore =
  files :: "fileID \<rightharpoonup> string"
  nextID :: fileID

definition emptyStore :: fileStore where
  "emptyStore = \<lparr>files = Map.empty, nextID = 0\<rparr>"

definition writeGlobalFile :: "fileStore \<Rightarrow> string \<Rightarrow> fileID \<times> fileStore" where
  "writeGlobalFile fs content =
     (nextID fs, fs\<lparr>files := (files fs)(nextID fs \<mapsto> content), nextID := Suc (nextID fs)\<rparr>)"

definition readGlobalFile :: "fileStore \<Rightarrow> fileID \<Rightarrow> error + string" where
  "readGlobalFile fs fileStoreID =
     (case files fs fileStoreID of None \<Rightarrow> Inl NoSuchFile | Some content \<Rightarrow> Inr content)"

definition deleteGlobalFile :: "fileStore \<Rightarrow> fileID \<Rightarrow> fileStore" where
  "deleteGlobalFile fs fileStoreID = fs\<lparr>files := (files fs)(fileStoreID := None)\<rparr>"

text \<open>Modelled from the spec: the stream operations of \<^verbatim>\<open>job.fileStore\<close>.
  \<^verbatim>\<open>writeGlobalFileStream()\<close> creates an empty file under a fresh handle and gives a
  stream into it; \<^verbatim>\<open>readGlobalFileStream(id)\<close> gives a stream over the content.\<close>

definition writeGlobalFileStream :: "fileStore \<Rightarrow> fileID \<times> fileStore" where
  "writeGlobalFileStream fs = writeGlobalFile fs []"

definition readGlobalFileStream :: "fileStore \<Rightarrow> fileID \<Rightarrow> error + string" where
  "readGlobalFileStream fs fileStoreID = readGlobalFile fs fileStoreID"

text \<open>
  A write on the store's output stream can fail (the stream belongs to the store, outside
  the program), so \<^verbatim>\<open>fileHandle.write\<close> is a parameter of the jobs: given the content
  written so far and the data, it returns the new content or raises. \<open>stream_write\<close> is
  the stream that accepts every write. \<open>write_log\<close> replays the writes of \<^verbatim>\<open>merge\<close> on
  such a stream: the first write that raises ends the merge, and what was written before
  stays in the file.
\<close>

type_synonym writer = "string \<Rightarrow> string \<Rightarrow> error + string"

definition stream_write :: writer where
  "stream_write content data = Inr (content @ data)"

fun write_log :: "writer \<Rightarrow> string \<Rightarrow> string list \<Rightarrow> error option \<times> string" where
  "write_log wr content [] = (None, content)"
| "write_log wr content (line # rest) =
     (case wr content line of
        Inl e \<Rightarrow> (Some e, content)
      | Inr content' \<Rightarrow> write_log wr content' rest)"

text \<open>\<^verbatim>\<open>up(job, inputFileID1, inputFileID2, ...)\<close>: the result is the returned handle or
  the exception, together with the store afterwards.\<close>

definition up :: "writer \<Rightarrow> fileStore \<Rightarrow> fileID \<Rightarrow> fileID \<Rightarrow> (error + fileID) \<times> fileStore" where
  "up wr fs inputFileID1 inputFileID2 =
     (case writeGlobalFileStream fs of
        (outputFileStoreID, fs1) \<Rightarrow>
     (case readGlobalFileStream fs1 inputFileID1 of
        Inl e \<Rightarrow> (Inl e, fs1)
      | Inr inputFileHandle1 \<Rightarrow>
     (case readGlobalFileStream fs1 inputFileID2 of
        Inl e \<Rightarrow> (Inl e, fs1)
      | Inr inputFileHandle2 \<Rightarrow>
     (case write_log wr [] (merge inputFileHandle1 inputFileHandle2) of
        (Some e, written) \<Rightarrow>
          (Inl e, fs1\<lparr>files := (files fs1)(outputFileStoreID \<mapsto> written)\<rparr>)
      | (None, written) \<Rightarrow>
          (let fs2 = fs1\<lparr>files := (files fs1)(outputFileStoreID \<mapsto> written)\<rparr>;
               fs3 = deleteGlobalFile fs2 inputFileID1;
               fs4 = deleteGlobalFile fs3 inputFileID2
           in (Inr outputFileStoreID, fs4))))))"

text \<open>
  \<^verbatim>\<open>down(job, inputFileStoreID, N, ...)\<close>. The scheduler runs the two child jobs and
  then the follow-on \<^verbatim>\<open>up\<close> on their results; the model runs the first child, then the
  second, then \<open>up\<close>. The recursion has no bound in the program, so the model has fuel:
  \<open>None\<close> means that the job tree is deeper than the fuel.
\<close>

fun down :: "writer \<Rightarrow> nat \<Rightarrow> fileStore \<Rightarrow> fileID \<Rightarrow> nat
    \<Rightarrow> ((error + fileID) \<times> fileStore) option" where
  "down wr 0 fs inputFileStoreID N = None"
| "down wr (Suc fuel) fs inputFileStoreID N =
     (case readGlobalFile fs inputFileStoreID of
        Inl e \<Rightarrow> Some (Inl e, fs)
      | Inr inputFile \<Rightarrow>
          if length inputFile > N then
            (case getMidPoint inputFile 0 (length inputFile) of
               Inl e \<Rightarrow> Some (Inl e, fs)
             | Inr midPoint \<Rightarrow>
            (case copySubRangeOfFile inputFile 0 (midPoint + 1) [] of
               Inl e \<Rightarrow> Some (Inl e, fs)
             | Inr t1 \<Rightarrow>
            (case copySubRangeOfFile inputFile (midPoint + 1) (length inputFile) [] of
               Inl e \<Rightarrow> Some (Inl e, fs)
             | Inr t2 \<Rightarrow>
            (case writeGlobalFile fs t1 of (id1, fs1) \<Rightarrow>
            (case writeGlobalFile fs1 t2 of (id2, fs2) \<Rightarrow>
            (case down wr fuel fs2 id1 N of
               None \<Rightarrow> None
             | Some (Inl e, fs3) \<Rightarrow> Some (Inl e, fs3)
             | Some (Inr rv1, fs3) \<Rightarrow>
            (case down wr fuel fs3 id2 N of
               None \<Rightarrow> None
             | Some (Inl e, fs4) \<Rightarrow> Some (Inl e, fs4)
             | Some (Inr rv2, fs4) \<Rightarrow> Some (up wr fs4 rv1 rv2))))))))
          else
            (case writeGlobalFile fs (sort_file inputFile) of
               (outputFileStoreID, fs') \<Rightarrow> Some (Inr outputFileStoreID, fs')))"

text \<open>\<^verbatim>\<open>cleanup\<close> copies the content of the final handle to the output file; the result
  is the new content of that file.\<close>

definition cleanup :: "fileStore \<Rightarrow> fileID \<Rightarrow> error + string" where
  "cleanup fs tempOutputFileStoreID = readGlobalFile fs tempOutputFileStoreID"

text \<open>The whole run: the check of \<open>N\<close> in \<^verbatim>\<open>main\<close>, then \<^verbatim>\<open>setup\<close> (the input file is
  written to an empty store and \<open>down\<close> is its child), then \<open>cleanup\<close> as the follow-on.\<close>

definition sort_pipeline :: "writer \<Rightarrow> nat \<Rightarrow> string \<Rightarrow> nat \<Rightarrow> (error + string) option" where
  "sort_pipeline wr fuel inputFile N =
     (if N \<le> 0 then Some (Inl RuntimeError)
      else
        (case writeGlobalFile emptyStore inputFile of
           (inputFileStoreID, fs0) \<Rightarrow>
        (case down wr fuel fs0 inputFileStoreID N of
           None \<Rightarrow> None
         | Some (Inl e, fs1) \<Rightarrow> Some (Inl e)
         | Some (Inr tempOutputFileStoreID, fs1) \<Rightarrow> Some (cleanup fs1 tempOutputFileStoreID))))"

section \<open>Notions used in the statements\<close>

text \<open>A file is terminated when it is empty or ends with a newline, so that every line
  of it is a complete line: non-empty, with one newline, at its end.\<close>

definition terminated :: "string \<Rightarrow> bool" where
  "terminated file \<longleftrightarrow> file = [] \<or> last file = nl"

definition complete_line :: "string \<Rightarrow> bool" where
  "complete_line l \<longleftrightarrow> l \<noteq> [] \<and> last l = nl \<and> nl \<notin> set (butlast l)"

text \<open>The handles of a store are below its counter, so that the next handle is fresh.\<close>

definition store_ok :: "fileStore \<Rightarrow> bool" where
  "store_ok fs \<longleftrightarrow> (\<forall>i \<in> dom (files fs). i < nextID fs)"

text \<open>An output stream that raises as soon as the file would grow beyond \<open>quota\<close> bytes:
  an example of a write that fails in the middle of a merge.\<close>

definition quota_write :: "nat \<Rightarrow> writer" where
  "quota_write quota content data =
     (if length content + length data > quota then Inl IOError else Inr (content @ data))"

text \<open>The two-way merge of two lists of lines, ties taken from the second list first, and
  the lines that the merge has still to read from its second input. Both are used in the
  proofs only: every loop of \<open>merge\<close> is shown to compute a part of \<open>merge_lines\<close>.\<close>

fun merge_lines :: "string list \<Rightarrow> string list \<Rightarrow> (source \<times> string) list" where
  "merge_lines [] ys = map (Pair Input2) ys"
| "merge_lines (x # xs) [] = (Input1, x) # merge_lines xs []"
| "merge_lines (x # xs) (y # ys) =
     (if y \<le> x then (Input2, y) # merge_lines (x # xs) ys
      else (Input1, x) # merge_lines xs (y # ys))"

definition pending :: "string \<Rightarrow> string \<Rightarrow> string list" where
  "pending line2 fileHandle2 = (if line2 = [] then [] else line2 # readlines fileHandle2)"




section \<open>Lines of a file\<close>

lemma write_lines_concat: "write_lines out ls = out @ concat ls"
  unfolding write_lines_def by (induction ls arbitrary: out) auto

lemma readlines_induct [case_names Nil Line]:
  assumes "P []" and "\<And>h. h \<noteq> [] \<Longrightarrow> P (snd (readline h)) \<Longrightarrow> P h"
  shows "P h"
proof (induction "length h" arbitrary: h rule: less_induct)
  case less
  show ?case
  proof (cases "h = []")
    case True
    with assms(1) show ?thesis by simp
  next
    case False
    then have "P (snd (readline h))" by (intro less readline_rest_shorter)
    with False show ?thesis by (rule assms(2))
  qed
qed

lemma concat_readlines: "concat (readlines h) = h"
proof (induction h rule: readlines_induct)
  case Nil
  show ?case by simp
next
  case (Line h)
  then show ?case by (simp add: readlines_step readline_append)
qed

lemma readline_complete: "complete_line l \<Longrightarrow> readline (l @ r) = (l, r)"
proof (induction l)
  case Nil
  then show ?case by (simp add: complete_line_def)
next
  case (Cons c l)
  show ?case
  proof (cases "l = []")
    case True
    with Cons.prems show ?thesis by (simp add: complete_line_def)
  next
    case False
    with Cons.prems have "complete_line l" and "c \<noteq> nl"
      by (auto simp: complete_line_def)
    with Cons.IH show ?thesis by simp
  qed
qed

lemma readlines_concat:
  "\<forall>l \<in> set ls. complete_line l \<Longrightarrow> readlines (concat ls) = ls"
proof (induction ls)
  case Nil
  then show ?case by simp
next
  case (Cons l ls)
  then have l: "complete_line l" by simp
  then have "l @ concat ls \<noteq> []" by (simp add: complete_line_def)
  then show ?case using Cons readline_complete [OF l, of "concat ls"]
    by (simp add: readlines_step)
qed

lemma readline_no_inner_nl: "nl \<notin> set (butlast (fst (readline h)))"
  by (induction h) (auto split: prod.splits)

lemma readline_fst_Nil [simp]: "fst (readline h) = [] \<longleftrightarrow> h = []"
  by (cases h) (auto split: prod.splits)

lemma readline_last: "snd (readline h) \<noteq> [] \<Longrightarrow> last (fst (readline h)) = nl"
proof (induction h)
  case Nil
  then show ?case by simp
next
  case (Cons c h)
  show ?case
  proof (cases "c = nl")
    case True
    then show ?thesis by simp
  next
    case False
    with Cons.prems have "snd (readline h) \<noteq> []" by (simp add: split_beta)
    then have "last (fst (readline h)) = nl" by (rule Cons.IH)
    moreover from \<open>snd (readline h) \<noteq> []\<close> have "fst (readline h) \<noteq> []" by auto
    ultimately show ?thesis using False by (simp add: split_beta)
  qed
qed

lemma readline_complete_line:
  assumes "h \<noteq> []" and "terminated h"
  shows "complete_line (fst (readline h))"
proof -
  have "last (fst (readline h)) = nl"
  proof (cases "snd (readline h) = []")
    case True
    then have "fst (readline h) = h" using readline_append [of h] by simp
    with assms show ?thesis by (simp add: terminated_def)
  next
    case False
    then show ?thesis by (rule readline_last)
  qed
  with assms(1) show ?thesis
    by (simp add: complete_line_def readline_nonempty readline_no_inner_nl)
qed

lemma terminated_rest: "terminated h \<Longrightarrow> terminated (snd (readline h))"
proof (cases "snd (readline h) = []")
  case True
  then show ?thesis by (simp add: terminated_def)
next
  case False
  assume "terminated h"
  have "last h = last (fst (readline h) @ snd (readline h))" by (simp add: readline_append)
  also have "\<dots> = last (snd (readline h))" using False by simp
  finally show ?thesis using \<open>terminated h\<close> False by (auto simp: terminated_def)
qed

lemma readlines_complete: "terminated h \<Longrightarrow> \<forall>l \<in> set (readlines h). complete_line l"
proof (induction h rule: readlines_induct)
  case Nil
  show ?case by simp
next
  case (Line h)
  then show ?case
    by (simp add: readlines_step readline_complete_line terminated_rest)
qed

lemma readlines_nonempty: "\<forall>l \<in> set (readlines h). l \<noteq> []"
proof (induction h rule: readlines_induct)
  case Nil
  show ?case by simp
next
  case (Line h)
  then show ?case by (simp add: readlines_step readline_nonempty)
qed

lemma pending_readline: "pending (fst (readline h)) (snd (readline h)) = readlines h"
  by (cases "h = []") (simp_all add: pending_def readlines_step readline_nonempty)

lemma merge_while_spec:
  "\<exists>line2' h2'. merge_while line1 (line2, h2, out) =
       (line2', h2', out @ map (Pair Input2) (takeWhile (\<lambda>y. y \<le> line1) (pending line2 h2)))
     \<and> pending line2' h2' = dropWhile (\<lambda>y. y \<le> line1) (pending line2 h2)"
proof (induction line1 "(line2, h2, out)" arbitrary: line2 h2 out rule: merge_while.induct)
  case (1 line1 line2 h2 out)
  show ?case
  proof (cases "line2 \<noteq> [] \<and> line2 \<le> line1")
    case True
    from "1.hyps" [OF True] obtain l' h' where
      "merge_while line1 (fst (readline h2), snd (readline h2), out @ [(Input2, line2)]) =
         (l', h', (out @ [(Input2, line2)]) @ map (Pair Input2) (takeWhile (\<lambda>y. y \<le> line1) (readlines h2)))"
      and "pending l' h' = dropWhile (\<lambda>y. y \<le> line1) (readlines h2)"
      by (auto simp: pending_readline)
    with True show ?thesis
      by (subst merge_while.simps) (simp add: pending_def)
  next
    case False
    then show ?thesis
      by (subst merge_while.simps) (auto simp: pending_def)
  qed
qed

lemma merge_lines_Cons:
  "merge_lines (x # xs) ys =
     map (Pair Input2) (takeWhile (\<lambda>y. y \<le> x) ys) @ (Input1, x) # merge_lines xs (dropWhile (\<lambda>y. y \<le> x) ys)"
  by (induction ys) auto

lemma merge_for_spec:
  "\<exists>line2' h2' out'. merge_for lines1 (line2, h2, out) = (line2', h2', out')
     \<and> out' @ map (Pair Input2) (pending line2' h2') = out @ merge_lines lines1 (pending line2 h2)"
proof (induction lines1 arbitrary: line2 h2 out)
  case Nil
  show ?case by simp
next
  case (Cons line1 lines1)
  obtain l' h' where w: "merge_while line1 (line2, h2, out) =
       (l', h', out @ map (Pair Input2) (takeWhile (\<lambda>y. y \<le> line1) (pending line2 h2)))"
    and p: "pending l' h' = dropWhile (\<lambda>y. y \<le> line1) (pending line2 h2)"
    using merge_while_spec by blast
  from Cons.IH [of l' h' "out @ map (Pair Input2) (takeWhile (\<lambda>y. y \<le> line1) (pending line2 h2)) @ [(Input1, line1)]"]
  show ?case using w p by (auto simp: merge_lines_Cons)
qed

lemma merge_rest_spec:
  "snd (snd (merge_rest (line2, h2, out))) = out @ map (Pair Input2) (pending line2 h2)"
proof (induction "(line2, h2, out)" arbitrary: line2 h2 out rule: merge_rest.induct)
  case (1 line2 h2 out)
  show ?case
  proof (cases "line2 \<noteq> []")
    case True
    from "1.hyps" [OF True] True show ?thesis
      by (simp add: merge_rest.simps [of line2 h2 out] pending_readline) (simp add: pending_def)
  next
    case False
    then show ?thesis
      by (subst merge_rest.simps) (simp add: pending_def)
  qed
qed

lemma merge_log_eq: "merge_log f1 f2 = merge_lines (readlines f1) (readlines f2)"
proof -
  obtain l' h' out' where f: "merge_for (readlines f1) (fst (readline f2), snd (readline f2), []) = (l', h', out')"
    and o: "out' @ map (Pair Input2) (pending l' h') = [] @ merge_lines (readlines f1) (pending (fst (readline f2)) (snd (readline f2)))"
    using merge_for_spec by blast
  have "snd (snd (merge_rest (l', h', out'))) = out' @ map (Pair Input2) (pending l' h')"
    by (rule merge_rest_spec)
  with f o show ?thesis
    by (simp add: merge_log_def pending_readline split_beta)
qed

section \<open>What the merger writes\<close>

lemma merge_lines_Nil2: "merge_lines xs [] = map (Pair Input1) xs"
  by (induction xs) auto

lemma mset_merge_lines: "mset (map snd (merge_lines xs ys)) = mset xs + mset ys"
  by (induction xs ys rule: merge_lines.induct) (auto simp: comp_def)

lemma set_merge_lines: "snd ` set (merge_lines xs ys) = set xs \<union> set ys"
  using mset_merge_lines [of xs ys, THEN arg_cong, of set_mset] by simp

lemma sorted_merge_lines:
  "sorted xs \<Longrightarrow> sorted ys \<Longrightarrow> sorted (map snd (merge_lines xs ys))"
proof (induction xs ys rule: merge_lines.induct)
  case (1 ys)
  then show ?case by (simp add: comp_def)
next
  case (2 x xs)
  then show ?case by (simp add: merge_lines_Nil2 comp_def)
next
  case (3 x xs y ys)
  show ?case
  proof (cases "y \<le> x")
    case True
    with 3 have "sorted (map snd (merge_lines (x # xs) ys))" by simp
    moreover have "\<forall>z \<in> snd ` set (merge_lines (x # xs) ys). y \<le> z"
      using "3.prems" True unfolding set_merge_lines by auto
    ultimately show ?thesis using True by simp
  next
    case False
    with 3 have "sorted (map snd (merge_lines xs (y # ys)))" by simp
    moreover have "\<forall>z \<in> snd ` set (merge_lines xs (y # ys)). x \<le> z"
      using "3.prems" False unfolding set_merge_lines by auto
    ultimately show ?thesis using False by simp
  qed
qed

lemma merge_eq: "merge A B = map snd (merge_lines (readlines A) (readlines B))"
  by (simp add: merge_def merge_log_eq)

lemma merge_complete_lines:
  assumes "terminated A" and "terminated B"
  shows "\<forall>l \<in> set (merge A B). complete_line l"
proof -
  have "set (merge A B) = set (readlines A) \<union> set (readlines B)"
    by (simp add: merge_eq set_merge_lines)
  with assms show ?thesis by (auto dest: readlines_complete)
qed

lemma merge_lines_Input2: "(Input2, y) \<in> set (merge_lines xs ys) \<Longrightarrow> y \<in> set ys"
  by (induction xs ys rule: merge_lines.induct) (auto split: if_splits)

lemma merge_lines_sources:
  "map snd (filter (\<lambda>e. fst e = Input1) (merge_lines xs ys)) = xs \<and>
   map snd (filter (\<lambda>e. fst e = Input2) (merge_lines xs ys)) = ys"
  by (induction xs ys rule: merge_lines.induct) (auto simp: comp_def filter_map)

lemma merge_lines_ties:
  "sorted ys \<Longrightarrow> merge_lines xs ys = pre @ (Input1, x) # post \<Longrightarrow> (Input2, x) \<notin> set post"
proof (induction xs ys arbitrary: pre rule: merge_lines.induct)
  case (1 ys)
  then have "(Input1, x) \<in> set (map (Pair Input2) ys)" by simp
  then show ?case by auto
next
  case (2 x' xs)
  show ?case
  proof (cases pre)
    case Nil
    with "2.prems" have "post = merge_lines xs []" by simp
    then show ?thesis by (auto dest: merge_lines_Input2)
  next
    case (Cons e pre')
    with "2.prems" have "merge_lines xs [] = pre' @ (Input1, x) # post" by simp
    with "2.IH" show ?thesis by simp
  qed
next
  case (3 x' xs y ys)
  show ?case
  proof (cases "y \<le> x'")
    case True
    with "3.prems" obtain pre' where "merge_lines (x' # xs) ys = pre' @ (Input1, x) # post"
      by (cases pre) auto
    with "3.IH"(1) [OF True] "3.prems"(1) show ?thesis by simp
  next
    case False
    show ?thesis
    proof (cases pre)
      case Nil
      with "3.prems" False have x: "x = x'" and post: "post = merge_lines xs (y # ys)" by auto
      show ?thesis
      proof
        assume "(Input2, x) \<in> set post"
        with post have "x \<in> set (y # ys)" by (auto dest: merge_lines_Input2)
        with "3.prems"(1) have "y \<le> x" by auto
        with False x show False by simp
      qed
    next
      case (Cons e pre')
      with "3.prems" False have "merge_lines xs (y # ys) = pre' @ (Input1, x) # post" by simp
      with "3.IH"(2) [OF False] "3.prems"(1) show ?thesis by simp
    qed
  qed
qed

lemma merge_log_sources:
  "map snd (filter (\<lambda>e. fst e = Input1) (merge_log A B)) = readlines A \<and>
   map snd (filter (\<lambda>e. fst e = Input2) (merge_log A B)) = readlines B"
  by (simp add: merge_log_eq merge_lines_sources)

section \<open>Sorting, ranges and split points\<close>

lemma sort_file_eq: "sort_file file = concat (sort (readlines file))"
  by (simp add: sort_file_def write_lines_concat)

lemma readlines_sort_file:
  "terminated inputFile \<Longrightarrow> readlines (sort_file inputFile) = sort (readlines inputFile)"
  using readlines_complete [of inputFile] by (simp add: sort_file_eq readlines_concat)

lemma byte_range_nth:
  "fileStart \<le> fileEnd \<Longrightarrow> fileEnd \<le> length file \<Longrightarrow>
   length (byte_range file fileStart fileEnd) = fileEnd - fileStart \<and>
   (\<forall>k < fileEnd - fileStart. byte_range file fileStart fileEnd ! k = file ! (fileStart + k))"
  by (auto simp: byte_range_def)

lemma readlines_concat_append:
  "\<forall>l \<in> set ls. complete_line l \<Longrightarrow> readlines (concat ls @ b) = ls @ readlines b"
proof (induction ls)
  case Nil
  then show ?case by simp
next
  case (Cons l ls)
  then have l: "complete_line l" by simp
  then have "l @ concat ls @ b \<noteq> []" by (simp add: complete_line_def)
  then show ?case using Cons readline_complete [OF l, of "concat ls @ b"]
    by (simp add: readlines_step)
qed

lemma readlines_append:
  assumes "terminated a"
  shows "readlines (a @ b) = readlines a @ readlines b"
  using readlines_concat_append [OF readlines_complete [OF assms], of b]
  by (simp add: concat_readlines)

lemma readline_first_nl:
  "j < length h \<Longrightarrow> h ! j = nl \<Longrightarrow>
   length (fst (readline h)) \<le> Suc j \<and> last (fst (readline h)) = nl"
proof (induction h arbitrary: j)
  case Nil
  then show ?case by simp
next
  case (Cons c h)
  show ?case
  proof (cases "c = nl")
    case True
    then show ?thesis by simp
  next
    case False
    with Cons.prems obtain j' where j: "j = Suc j'" by (cases j) auto
    with Cons.prems have "j' < length h" and "h ! j' = nl" by auto
    then have "length (fst (readline h)) \<le> Suc j' \<and> last (fst (readline h)) = nl"
      by (rule Cons.IH)
    moreover from \<open>j' < length h\<close> have "fst (readline h) \<noteq> []" by auto
    ultimately show ?thesis using False j by (simp add: split_beta)
  qed
qed

lemma readline_fst_take: "fst (readline h) = take (length (fst (readline h))) h"
  using readline_append [of h] by (metis append_eq_conv_conj)

lemma readline_last_nth:
  assumes "h \<noteq> []"
  shows "last (fst (readline h)) = h ! (length (fst (readline h)) - 1)"
proof -
  let ?n = "length (fst (readline h))"
  have n: "0 < ?n" "?n \<le> length h"
    using assms readline_length [of h] by auto
  have "last (fst (readline h)) = last (take ?n h)" using readline_fst_take [of h] by simp
  also have "\<dots> = take ?n h ! (?n - 1)" using n by (simp add: last_conv_nth)
  also have "\<dots> = h ! (?n - 1)" using n by simp
  finally show ?thesis .
qed

lemma readline_drop_end:
  assumes "pos < length f"
  defines "n \<equiv> length (fst (readline (drop pos f)))"
  shows "1 \<le> n" and "pos + n \<le> length f"
    and "pos + n < length f \<Longrightarrow> f ! (pos + n - 1) = nl"
    and "\<And>j. pos \<le> j \<Longrightarrow> j < length f \<Longrightarrow> f ! j = nl \<Longrightarrow> pos + n \<le> Suc j \<and> f ! (pos + n - 1) = nl"
proof -
  let ?h = "drop pos f"
  from assms(1) have ne: "?h \<noteq> []" by simp
  then show n1: "1 \<le> n" unfolding n_def by (simp add: Suc_le_eq)
  show n2: "pos + n \<le> length f" using readline_length [of ?h] assms(1) unfolding n_def by simp
  have nth: "last (fst (readline ?h)) = f ! (pos + n - 1)"
    using readline_last_nth [OF ne] n1 n2 unfolding n_def by (simp add: add.commute)
  {
    assume "pos + n < length f"
    then have "snd (readline ?h) \<noteq> []" using readline_length [of ?h] unfolding n_def by auto
    then have "last (fst (readline ?h)) = nl" by (rule readline_last)
    with nth show "f ! (pos + n - 1) = nl" by simp
  }
  {
    fix j assume j: "pos \<le> j" "j < length f" "f ! j = nl"
    then have "j - pos < length ?h" "?h ! (j - pos) = nl" by auto
    from readline_first_nl [OF this] j(1) nth
    show "pos + n \<le> Suc j \<and> f ! (pos + n - 1) = nl" unfolding n_def by auto
  }
qed

lemma getMidPoint_line_end:
  assumes "fileStart < fileEnd" and "fileEnd \<le> length f"
    and "fileStart \<le> j" and "j < fileEnd" and "f ! j = nl"
  shows "\<exists>i. getMidPoint f fileStart fileEnd = Inr i \<and> fileStart \<le> i \<and> i < fileEnd \<and> f ! i = nl"
proof -
  let ?m = "(fileStart + fileEnd) div 2"
  let ?n = "length (fst (readline (drop ?m f)))"
  let ?k = "length (fst (readline (drop fileStart f)))"
  from assms have m: "fileStart \<le> ?m" "?m < fileEnd" "?m < length f" by auto
  note M = readline_drop_end [OF m(3)]
  show ?thesis
  proof (cases "?n + ?m < fileEnd")
    case True
    then have "f ! (?m + ?n - 1) = nl" using M(3) assms(2) by (simp add: add.commute)
    moreover have "getMidPoint f fileStart fileEnd = Inr (?m + ?n - 1)"
      using True m M(1) by (simp add: getMidPoint_def seek_def Let_def)
    moreover have "fileStart \<le> ?m + ?n - 1" "?m + ?n - 1 < fileEnd"
      using True m M(1) by linarith+
    ultimately show ?thesis by blast
  next
    case False
    from assms have s: "fileStart < length f" by simp
    note K = readline_drop_end [OF s]
    from K(4) [of j] assms have k: "fileStart + ?k \<le> Suc j" "f ! (fileStart + ?k - 1) = nl"
      by auto
    have "getMidPoint f fileStart fileEnd = Inr (?k + fileStart - 1)"
      using False m M(1) K(1) k(1) assms(4) by (simp add: getMidPoint_def seek_def Let_def)
    moreover have "fileStart \<le> ?k + fileStart - 1" "?k + fileStart - 1 < fileEnd"
      using K(1) k(1) assms(4) by linarith+
    ultimately show ?thesis using k(2) by (simp add: add.commute)
  qed
qed


lemma copySubRangeOfFile_ok:
  "fileStart \<le> fileEnd \<Longrightarrow> fileEnd \<le> length inputFile \<Longrightarrow>
   copySubRangeOfFile inputFile fileStart fileEnd out =
     Inr (out @ byte_range inputFile fileStart fileEnd)"
  by (auto simp: copySubRangeOfFile_def seek_def fread_def Let_def byte_range_def
      nat_diff_distrib')

lemma byte_range_split:
  assumes "fileStart \<le> k" and "k \<le> fileEnd"
  shows "byte_range f fileStart fileEnd = byte_range f fileStart k @ byte_range f k fileEnd"
proof -
  have "fileEnd - fileStart = (k - fileStart) + (fileEnd - k)" using assms by simp
  then have "take (fileEnd - fileStart) (drop fileStart f) =
      take (k - fileStart) (drop fileStart f) @ take (fileEnd - k) (drop (k - fileStart) (drop fileStart f))"
    by (simp only: take_add)
  with assms show ?thesis by (simp add: byte_range_def)
qed

lemma byte_range_terminated:
  assumes "fileStart \<le> i" and "i < length f" and "f ! i = nl"
  shows "terminated (byte_range f fileStart (Suc i))"
proof -
  let ?r = "byte_range f fileStart (Suc i)"
  have len: "length ?r = Suc i - fileStart" using assms by (simp add: byte_range_def)
  then have "?r \<noteq> []" using assms by auto
  then have "last ?r = ?r ! (i - fileStart)" using len assms by (simp add: last_conv_nth Suc_diff_le)
  also have "\<dots> = f ! i" using assms by (simp add: byte_range_def)
  finally show ?thesis using assms by (simp add: terminated_def)
qed

section \<open>The merger: sorted output, ties, empty inputs\<close>

text \<open>
  Claim C2, as amended. For all inputs \<open>A\<close> and \<open>B\<close> whose line sequences are sorted in
  non-decreasing byte-wise lexicographic order, the sequence of lines that \<open>merge\<close> writes
  is sorted in that order and its multiset is the union of the multisets of the lines of
  \<open>A\<close> and of \<open>B\<close>; when \<open>A\<close> and \<open>B\<close> are terminated (every line ends with a newline),
  this sequence is the line sequence of the output file.
\<close>

theorem merge_sorted_union:
  assumes "sorted (readlines A)" and "sorted (readlines B)"
  shows "sorted (merge A B) \<and>
         mset (merge A B) = mset (readlines A) + mset (readlines B) \<and>
         (terminated A \<and> terminated B \<longrightarrow> readlines (merge_output A B) = merge A B)"
proof -
  have "terminated A \<and> terminated B \<longrightarrow> readlines (merge_output A B) = merge A B"
    using merge_complete_lines [of A B]
    by (simp add: merge_output_def write_lines_concat readlines_concat)
  then show ?thesis
    using assms mset_merge_lines [of "readlines A" "readlines B"]
    by (simp add: merge_eq sorted_merge_lines)
qed

text \<open>The theorem at the inputs \<open>a\<newline>c\<newline>\<close> and \<open>b\<newline>\<close>.\<close>

theorem merge_sorted_union_witness:
  "sorted (readlines ''a\<newline>c\<newline>'') \<and> sorted (readlines ''b\<newline>'') \<and>
   terminated ''a\<newline>c\<newline>'' \<and> terminated ''b\<newline>'' \<and>
   sorted (merge ''a\<newline>c\<newline>'' ''b\<newline>'') \<and>
   mset (merge ''a\<newline>c\<newline>'' ''b\<newline>'') =
     mset (readlines ''a\<newline>c\<newline>'') + mset (readlines ''b\<newline>'') \<and>
   readlines (merge_output ''a\<newline>c\<newline>'' ''b\<newline>'') = merge ''a\<newline>c\<newline>'' ''b\<newline>''"
proof -
  have 1: "sorted (readlines ''a\<newline>c\<newline>'')" by code_simp
  have 2: "sorted (readlines ''b\<newline>'')" by code_simp
  have 3: "terminated ''a\<newline>c\<newline>''" by code_simp
  have 4: "terminated ''b\<newline>''" by code_simp
  from merge_sorted_union [OF 1 2] 1 2 3 4 show ?thesis by blast
qed

text \<open>
  Claim C2 as it is stated fails for an input whose last line has no newline: the inputs
  \<open>a\<close> and \<open>b\<newline>\<close> are sorted, \<open>merge\<close> writes \<open>a\<close> and then \<open>b\<newline>\<close>, and the output file
  \<open>ab\<newline>\<close> has the single line \<open>ab\<newline>\<close>, which is a line of neither input.
\<close>

theorem merge_unterminated_counterexample:
  "sorted (readlines ''a'') \<and> sorted (readlines ''b\<newline>'') \<and>
   merge_output ''a'' ''b\<newline>'' = ''ab\<newline>'' \<and>
   readlines (merge_output ''a'' ''b\<newline>'') = [''ab\<newline>''] \<and>
   mset (readlines (merge_output ''a'' ''b\<newline>'')) \<noteq>
     mset (readlines ''a'') + mset (readlines ''b\<newline>'')"
  by code_simp

text \<open>
  Claim C4. For all sorted inputs \<open>A\<close> and \<open>B\<close>: the entries of the log of writes that
  come from the first input are the lines of \<open>A\<close> in order, those that come from the second
  input are the lines of \<open>B\<close> in order, and once a line \<open>x\<close> of the first input has been
  written, no line equal to \<open>x\<close> of the second input is written after it: all lines of \<open>B\<close>
  equal to a line of \<open>A\<close> are written before it.
\<close>

theorem merge_ties_input2_first:
  assumes "sorted (readlines A)" and "sorted (readlines B)"
  shows "map snd (filter (\<lambda>e. fst e = Input1) (merge_log A B)) = readlines A \<and>
         map snd (filter (\<lambda>e. fst e = Input2) (merge_log A B)) = readlines B \<and>
         (\<forall>pre x post. merge_log A B = pre @ (Input1, x) # post \<longrightarrow> (Input2, x) \<notin> set post)"
  using assms(2) merge_log_sources [of A B]
  by (auto simp: merge_log_eq dest: merge_lines_ties)

text \<open>The theorem at the inputs \<open>apple\<newline>pear\<newline>\<close> and \<open>apple\<newline>fig\<newline>\<close>: the \<open>apple\<close> of the
  second input is written first.\<close>

theorem merge_ties_input2_first_witness:
  "sorted (readlines ''apple\<newline>pear\<newline>'') \<and> sorted (readlines ''apple\<newline>fig\<newline>'') \<and>
   merge_log ''apple\<newline>pear\<newline>'' ''apple\<newline>fig\<newline>'' =
     [(Input2, ''apple\<newline>'')] @ (Input1, ''apple\<newline>'') #
       [(Input2, ''fig\<newline>''), (Input1, ''pear\<newline>'')] \<and>
   (Input2, ''apple\<newline>'') \<notin> set [(Input2, ''fig\<newline>''), (Input1, ''pear\<newline>'')]"
proof -
  have 1: "sorted (readlines ''apple\<newline>pear\<newline>'')" by code_simp
  have 2: "sorted (readlines ''apple\<newline>fig\<newline>'')" by code_simp
  have 3: "merge_log ''apple\<newline>pear\<newline>'' ''apple\<newline>fig\<newline>'' =
     [(Input2, ''apple\<newline>'')] @ (Input1, ''apple\<newline>'') #
       [(Input2, ''fig\<newline>''), (Input1, ''pear\<newline>'')]"
    by code_simp
  from merge_ties_input2_first [OF 1 2] 3
  have "(Input2, ''apple\<newline>'') \<notin> set [(Input2, ''fig\<newline>''), (Input1, ''pear\<newline>'')]"
    by blast
  with 1 2 3 show ?thesis by blast
qed

text \<open>
  Claim C10. The empty input is an identity of \<open>merge\<close> on either side, for every input
  \<open>A\<close>, sorted or not: the lines written are the lines of \<open>A\<close> in their order, and the
  output file is \<open>A\<close>.
\<close>

theorem merge_empty_identity:
  "merge A [] = readlines A \<and> merge [] A = readlines A \<and>
   merge_output A [] = A \<and> merge_output [] A = A"
  by (simp add: merge_eq merge_output_def write_lines_concat merge_lines_Nil2 comp_def
      concat_readlines)

section \<open>The sorter is idempotent\<close>

text \<open>
  Claim C7, as amended. Sorting a file whose lines are already in non-decreasing byte-wise
  lexicographic order rewrites it with the content it had; and for every terminated file
  (every line ends with a newline), sorting the sorted file gives the sorted file again.
\<close>

theorem sort_file_idempotent:
  "(sorted (readlines file) \<longrightarrow> sort_file file = file) \<and>
   (terminated file \<longrightarrow> sort_file (sort_file file) = sort_file file)"
proof
  show "sorted (readlines file) \<longrightarrow> sort_file file = file"
    by (simp add: sort_file_eq sorted_sort_id concat_readlines)
  show "terminated file \<longrightarrow> sort_file (sort_file file) = sort_file file"
    by (simp add: sort_file_eq [of "sort_file file"] readlines_sort_file sorted_sort_id)
       (simp add: sort_file_eq)
qed

text \<open>The theorem at the sorted file \<open>a\<newline>b\<newline>\<close> and at the terminated file \<open>b\<newline>a\<newline>\<close>.\<close>

theorem sort_file_idempotent_witness:
  "sorted (readlines ''a\<newline>b\<newline>'') \<and> sort_file ''a\<newline>b\<newline>'' = ''a\<newline>b\<newline>'' \<and>
   terminated ''b\<newline>a\<newline>'' \<and> sort_file (sort_file ''b\<newline>a\<newline>'') = sort_file ''b\<newline>a\<newline>''"
proof -
  have 1: "sorted (readlines ''a\<newline>b\<newline>'')" by code_simp
  have 2: "terminated ''b\<newline>a\<newline>''" by code_simp
  from sort_file_idempotent [of "''a\<newline>b\<newline>''"] sort_file_idempotent [of "''b\<newline>a\<newline>''"] 1 2
  show ?thesis by blast
qed

text \<open>
  Claim C7 as it is stated, \<open>sort (sort f) = sort f\<close> for every file, fails for a file
  whose last line has no newline. The lines of \<open>ba\<newline>bb\<newline>b\<close> are sorted to \<open>b\<close>, \<open>ba\<newline>\<close>,
  \<open>bb\<newline>\<close> and written as \<open>bba\<newline>bb\<newline>\<close>, a file whose two lines \<open>bba\<newline>\<close> and \<open>bb\<newline>\<close> are not
  in order; the second sort swaps them.
\<close>

theorem sort_file_twice_counterexample:
  "sort_file ''ba\<newline>bb\<newline>b'' = ''bba\<newline>bb\<newline>'' \<and>
   sort_file (sort_file ''ba\<newline>bb\<newline>b'') = ''bb\<newline>bba\<newline>'' \<and>
   sort_file (sort_file ''ba\<newline>bb\<newline>b'') \<noteq> sort_file ''ba\<newline>bb\<newline>b''"
  by code_simp

section \<open>Copying a byte range\<close>

text \<open>
  Claim C8. For a range \<open>[fileStart, fileEnd)\<close> inside the source file,
  \<open>copySubRangeOfFile\<close> appends to the output handle exactly the \<open>fileEnd - fileStart\<close>
  bytes at these offsets; whenever the number of bytes read differs from
  \<open>fileEnd - fileStart\<close> it fails with an assertion error and writes nothing; and it fails
  exactly when the range is reversed or is non-empty and ends after the end of the file.
\<close>

theorem copySubRangeOfFile_exact:
  "(fileStart \<le> fileEnd \<and> fileEnd \<le> length inputFile \<longrightarrow>
      copySubRangeOfFile inputFile fileStart fileEnd out =
        Inr (out @ byte_range inputFile fileStart fileEnd) \<and>
      length (byte_range inputFile fileStart fileEnd) = fileEnd - fileStart \<and>
      (\<forall>k < fileEnd - fileStart.
         byte_range inputFile fileStart fileEnd ! k = inputFile ! (fileStart + k))) \<and>
   (int (length (fread (seek inputFile fileStart) (int fileEnd - int fileStart)))
      \<noteq> int fileEnd - int fileStart \<longrightarrow>
      copySubRangeOfFile inputFile fileStart fileEnd out = Inl AssertionError) \<and>
   (copySubRangeOfFile inputFile fileStart fileEnd out = Inl AssertionError \<longleftrightarrow>
      fileEnd < fileStart \<or> (fileStart < fileEnd \<and> length inputFile < fileEnd))"
proof (intro conjI impI)
  assume "fileStart \<le> fileEnd \<and> fileEnd \<le> length inputFile"
  then show "copySubRangeOfFile inputFile fileStart fileEnd out =
        Inr (out @ byte_range inputFile fileStart fileEnd)"
    by (auto simp: copySubRangeOfFile_def seek_def fread_def Let_def byte_range_def nat_diff_distrib')
next
  assume "fileStart \<le> fileEnd \<and> fileEnd \<le> length inputFile"
  then show "length (byte_range inputFile fileStart fileEnd) = fileEnd - fileStart"
    by (simp add: byte_range_nth)
next
  assume "fileStart \<le> fileEnd \<and> fileEnd \<le> length inputFile"
  then show "\<forall>k < fileEnd - fileStart.
         byte_range inputFile fileStart fileEnd ! k = inputFile ! (fileStart + k)"
    by (simp add: byte_range_nth)
next
  assume "int (length (fread (seek inputFile fileStart) (int fileEnd - int fileStart)))
      \<noteq> int fileEnd - int fileStart"
  then show "copySubRangeOfFile inputFile fileStart fileEnd out = Inl AssertionError"
    by (simp add: copySubRangeOfFile_def Let_def)
next
  show "copySubRangeOfFile inputFile fileStart fileEnd out = Inl AssertionError \<longleftrightarrow>
      fileEnd < fileStart \<or> (fileStart < fileEnd \<and> length inputFile < fileEnd)"
    by (auto simp: copySubRangeOfFile_def seek_def fread_def Let_def min_def)
qed

text \<open>The theorem at the range \<open>[1, 4)\<close> of \<open>abcdef\<close>, and at the range \<open>[1, 5)\<close> of
  \<open>abc\<close>, where only two bytes can be read.\<close>

theorem copySubRangeOfFile_exact_witness:
  "(1::nat) \<le> 4 \<and> 4 \<le> length ''abcdef'' \<and>
   copySubRangeOfFile ''abcdef'' 1 4 ''xy'' = Inr ''xybcd'' \<and>
   int (length (fread (seek ''abc'' 1) (int 5 - int 1))) \<noteq> int 5 - int 1 \<and>
   copySubRangeOfFile ''abc'' 1 5 ''xy'' = Inl AssertionError"
proof -
  have 1: "(1::nat) \<le> 4 \<and> 4 \<le> length ''abcdef''" by simp
  have 2: "int (length (fread (seek ''abc'' 1) (int 5 - int 1))) \<noteq> int 5 - int 1"
    by (simp add: fread_def seek_def)
  have 3: "byte_range ''abcdef'' 1 4 = ''bcd''" by (simp add: byte_range_def)
  from copySubRangeOfFile_exact [of 1 4 "''abcdef''" "''xy''"] 1 3
  have "copySubRangeOfFile ''abcdef'' 1 4 ''xy'' = Inr ''xybcd''" by simp
  moreover from copySubRangeOfFile_exact [of 1 5 "''abc''" "''xy''"] 2
  have "copySubRangeOfFile ''abc'' 1 5 ''xy'' = Inl AssertionError" by blast
  ultimately show ?thesis using 1 2 by blast
qed

section \<open>The split point\<close>

text \<open>
  Claim C3. For every file \<open>f\<close> and every byte range \<open>[fileStart, fileEnd)\<close> of it
  (\<open>fileEnd\<close> is at most the length of \<open>f\<close>) with \<open>fileStart < fileEnd\<close> that contains a
  complete line, and so the newline that ends it, \<open>getMidPoint\<close> returns an
  offset \<open>i\<close> with \<open>fileStart \<le> i < fileEnd\<close> at which \<open>f\<close> has a newline: the bytes
  \<open>[fileStart, i]\<close> are complete lines only, and the lines of the range are these lines
  followed by the lines of \<open>[i + 1, fileEnd)\<close>, which therefore begins a new line.
\<close>

theorem getMidPoint_line_boundary:
  assumes "fileStart < fileEnd" and "fileEnd \<le> length f"
    and "\<exists>j. fileStart \<le> j \<and> j < fileEnd \<and> f ! j = nl"
  shows "\<exists>i. getMidPoint f fileStart fileEnd = Inr i \<and> fileStart \<le> i \<and> i < fileEnd \<and>
           f ! i = nl \<and>
           (\<forall>l \<in> set (readlines (byte_range f fileStart (i + 1))). complete_line l) \<and>
           readlines (byte_range f fileStart fileEnd) =
             readlines (byte_range f fileStart (i + 1)) @ readlines (byte_range f (i + 1) fileEnd)"
proof -
  from assms(3) obtain j where "fileStart \<le> j" "j < fileEnd" "f ! j = nl" by blast
  from getMidPoint_line_end [OF assms(1,2) this] obtain i where
    i: "getMidPoint f fileStart fileEnd = Inr i" "fileStart \<le> i" "i < fileEnd" "f ! i = nl"
    by blast
  have t: "terminated (byte_range f fileStart (Suc i))"
    using i assms(2) by (intro byte_range_terminated) auto
  have "byte_range f fileStart fileEnd =
      byte_range f fileStart (Suc i) @ byte_range f (Suc i) fileEnd"
    using i by (intro byte_range_split) auto
  then have "readlines (byte_range f fileStart fileEnd) =
      readlines (byte_range f fileStart (Suc i)) @ readlines (byte_range f (Suc i) fileEnd)"
    using readlines_append [OF t] by simp
  with i readlines_complete [OF t] show ?thesis by auto
qed

text \<open>The theorem at the range \<open>[0, 9)\<close> of \<open>ab\<newline>cd\<newline>ef\<newline>\<close>: the split point is 5.\<close>

theorem getMidPoint_line_boundary_witness:
  "(0::nat) < 9 \<and> 9 \<le> length ''ab\<newline>cd\<newline>ef\<newline>'' \<and> ''ab\<newline>cd\<newline>ef\<newline>'' ! 2 = nl \<and>
   getMidPoint ''ab\<newline>cd\<newline>ef\<newline>'' 0 9 = Inr 5 \<and>
   (\<exists>i. getMidPoint ''ab\<newline>cd\<newline>ef\<newline>'' 0 9 = Inr i \<and> 0 \<le> i \<and> i < 9 \<and>
      ''ab\<newline>cd\<newline>ef\<newline>'' ! i = nl \<and>
      (\<forall>l \<in> set (readlines (byte_range ''ab\<newline>cd\<newline>ef\<newline>'' 0 (i + 1))). complete_line l) \<and>
      readlines (byte_range ''ab\<newline>cd\<newline>ef\<newline>'' 0 9) =
        readlines (byte_range ''ab\<newline>cd\<newline>ef\<newline>'' 0 (i + 1)) @
        readlines (byte_range ''ab\<newline>cd\<newline>ef\<newline>'' (i + 1) 9))"
proof -
  have 1: "(0::nat) < 9" by simp
  have 2: "9 \<le> length ''ab\<newline>cd\<newline>ef\<newline>''" by simp
  have 3: "''ab\<newline>cd\<newline>ef\<newline>'' ! 2 = nl" by simp
  have 4: "\<exists>j. 0 \<le> j \<and> j < 9 \<and> ''ab\<newline>cd\<newline>ef\<newline>'' ! j = nl"
    using 3 by (intro exI [of _ 2]) simp
  have 5: "getMidPoint ''ab\<newline>cd\<newline>ef\<newline>'' 0 9 = Inr 5" by code_simp
  from getMidPoint_line_boundary [OF 1 2 4] 1 2 3 5 show ?thesis by blast
qed



section \<open>The jobs\<close>

lemma store_ok_iff: "store_ok fs \<longleftrightarrow> (\<forall>i c. files fs i = Some c \<longrightarrow> i < nextID fs)"
  by (auto simp: store_ok_def dom_def)


lemma up_cases:
  assumes "files fs inputFileID1 = Some a" and "files fs inputFileID2 = Some b"
    and "store_ok fs"
  shows "up wr fs inputFileID1 inputFileID2 =
     (case write_log wr [] (merge a b) of
        (Some e, written) \<Rightarrow>
          (Inl e, \<lparr>files = (files fs)(nextID fs \<mapsto> written), nextID = Suc (nextID fs)\<rparr>)
      | (None, written) \<Rightarrow>
          (Inr (nextID fs),
           \<lparr>files = (files fs)(nextID fs \<mapsto> written, inputFileID1 := None, inputFileID2 := None),
            nextID = Suc (nextID fs)\<rparr>))"
proof -
  from assms have "inputFileID1 \<noteq> nextID fs" "inputFileID2 \<noteq> nextID fs"
    by (auto simp: store_ok_iff)
  with assms(1,2) show ?thesis
    by (auto simp: up_def writeGlobalFileStream_def writeGlobalFile_def readGlobalFileStream_def
        readGlobalFile_def deleteGlobalFile_def Let_def split: prod.splits option.splits)
qed






lemma readline_whole_drop: "snd (readline h) = [] \<Longrightarrow> snd (readline (drop m h)) = []"
proof (induction h arbitrary: m)
  case Nil
  then show ?case by simp
next
  case (Cons c h)
  show ?case
  proof (cases m)
    case 0
    with Cons.prems show ?thesis by simp
  next
    case (Suc m')
    show ?thesis
    proof (cases "c = nl")
      case True
      with Cons.prems Suc show ?thesis by simp
    next
      case False
      with Cons.prems have "snd (readline h) = []" by (simp add: split_beta)
      with Cons.IH Suc show ?thesis by simp
    qed
  qed
qed

lemma readline_whole_length: "snd (readline h) = [] \<Longrightarrow> length (fst (readline h)) = length h"
  using readline_length [of h] by simp

lemma getMidPoint_single_line:
  assumes "snd (readline f) = []" and "f \<noteq> []"
  shows "getMidPoint f 0 (length f) = Inr (length f - 1)"
proof -
  let ?m = "length f div 2"
  have "snd (readline (drop ?m f)) = []" using assms(1) by (rule readline_whole_drop)
  then have "length (fst (readline (drop ?m f))) = length f - ?m"
    using readline_whole_length [of "drop ?m f"] by simp
  moreover have "?m < length f" using assms(2) by simp
  moreover have "Suc 0 \<le> length f" "Suc 0 \<le> length f - ?m"
    using assms(2) by (simp add: Suc_le_eq, cases f) auto
  ultimately show ?thesis using assms readline_whole_length [of f]
    by (simp add: getMidPoint_def seek_def Let_def)
qed

lemma down_single_long_line:
  assumes "snd (readline f) = []" and "N < length f" and "files fs fid = Some f"
  shows "down wr fuel fs fid N = None"
  using assms(3)
proof (induction fuel arbitrary: fs fid)
  case 0
  show ?case by simp
next
  case (Suc fuel)
  from assms(2) have ne: "f \<noteq> []" by auto
  have g: "getMidPoint f 0 (length f) = Inr (length f - 1)"
    using assms(1) ne by (rule getMidPoint_single_line)
  have c1: "copySubRangeOfFile f 0 (length f - 1 + 1) [] = Inr f"
    using ne copySubRangeOfFile_ok [of 0 "length f" f "[]"] by (simp add: byte_range_def)
  have c2: "copySubRangeOfFile f (length f - 1 + 1) (length f) [] = Inr []"
    using ne copySubRangeOfFile_ok [of "length f" "length f" f "[]"] by (simp add: byte_range_def)
  let ?fs1 = "fs\<lparr>files := (files fs)(nextID fs \<mapsto> f), nextID := Suc (nextID fs)\<rparr>"
  let ?fs2 = "?fs1\<lparr>files := (files ?fs1)(nextID ?fs1 \<mapsto> []), nextID := Suc (nextID ?fs1)\<rparr>"
  have "files ?fs2 (nextID fs) = Some f" by simp
  then have "down wr fuel ?fs2 (nextID fs) N = None" by (rule Suc.IH)
  then show ?case using assms(2) Suc.prems g c1 c2
    by (simp add: readGlobalFile_def writeGlobalFile_def)
qed

lemma pipeline_single_long_line_diverges:
  assumes "0 < N" and "snd (readline F) = []" and "N < length F"
  shows "sort_pipeline wr fuel F N = None"
proof -
  have "down wr fuel (snd (writeGlobalFile emptyStore F)) 0 N = None"
    using assms(2,3) by (rule down_single_long_line) (simp add: writeGlobalFile_def emptyStore_def)
  then show ?thesis using assms(1)
    by (simp add: sort_pipeline_def writeGlobalFile_def emptyStore_def)
qed

text \<open>
  Claim C5. In a store whose next handle is fresh and that holds both inputs, \<open>up\<close>
  deletes the two input handles only when the merge has written all of its output: if a
  write of the merge raises, \<open>up\<close> raises the same error and both input handles, and every
  other handle that existed before, still hold their content (only the new output handle,
  with what was written before the error, has been added); if no write raises, \<open>up\<close>
  returns the new handle, which holds the merged output, and both inputs are gone.
\<close>

theorem up_deletes_after_merge:
  assumes "store_ok fs"
    and "files fs inputFileID1 = Some a" and "files fs inputFileID2 = Some b"
  shows "(\<forall>e. fst (write_log wr [] (merge a b)) = Some e \<longrightarrow>
            fst (up wr fs inputFileID1 inputFileID2) = Inl e \<and>
            files (snd (up wr fs inputFileID1 inputFileID2)) inputFileID1 = Some a \<and>
            files (snd (up wr fs inputFileID1 inputFileID2)) inputFileID2 = Some b \<and>
            (\<forall>i. i \<noteq> nextID fs \<longrightarrow>
               files (snd (up wr fs inputFileID1 inputFileID2)) i = files fs i)) \<and>
         (fst (write_log wr [] (merge a b)) = None \<longrightarrow>
            fst (up wr fs inputFileID1 inputFileID2) = Inr (nextID fs) \<and>
            files (snd (up wr fs inputFileID1 inputFileID2)) (nextID fs) =
              Some (snd (write_log wr [] (merge a b))) \<and>
            files (snd (up wr fs inputFileID1 inputFileID2)) inputFileID1 = None \<and>
            files (snd (up wr fs inputFileID1 inputFileID2)) inputFileID2 = None)"
proof -
  from assms have "inputFileID1 \<noteq> nextID fs" "inputFileID2 \<noteq> nextID fs"
    by (auto simp: store_ok_iff)
  then show ?thesis
    using assms(2,3) by (auto simp: up_cases [OF assms(2,3,1)] split: prod.splits option.splits)
qed

text \<open>The theorem at a store with the files \<open>a\<newline>\<close> and \<open>b\<newline>\<close>: with a quota of three bytes
  the second write of the merge raises and both inputs stay; with a stream that accepts
  every write both inputs are deleted.\<close>

theorem up_deletes_after_merge_witness:
  "store_ok \<lparr>files = [0 \<mapsto> ''a\<newline>'', 1 \<mapsto> ''b\<newline>''], nextID = 2\<rparr> \<and>
   fst (write_log (quota_write 3) [] (merge ''a\<newline>'' ''b\<newline>'')) = Some IOError \<and>
   fst (up (quota_write 3) \<lparr>files = [0 \<mapsto> ''a\<newline>'', 1 \<mapsto> ''b\<newline>''], nextID = 2\<rparr> 0 1) = Inl IOError \<and>
   files (snd (up (quota_write 3) \<lparr>files = [0 \<mapsto> ''a\<newline>'', 1 \<mapsto> ''b\<newline>''], nextID = 2\<rparr> 0 1)) 0
     = Some ''a\<newline>'' \<and>
   files (snd (up (quota_write 3) \<lparr>files = [0 \<mapsto> ''a\<newline>'', 1 \<mapsto> ''b\<newline>''], nextID = 2\<rparr> 0 1)) 1
     = Some ''b\<newline>'' \<and>
   fst (write_log stream_write [] (merge ''a\<newline>'' ''b\<newline>'')) = None \<and>
   fst (up stream_write \<lparr>files = [0 \<mapsto> ''a\<newline>'', 1 \<mapsto> ''b\<newline>''], nextID = 2\<rparr> 0 1) = Inr 2 \<and>
   files (snd (up stream_write \<lparr>files = [0 \<mapsto> ''a\<newline>'', 1 \<mapsto> ''b\<newline>''], nextID = 2\<rparr> 0 1)) 0
     = None \<and>
   files (snd (up stream_write \<lparr>files = [0 \<mapsto> ''a\<newline>'', 1 \<mapsto> ''b\<newline>''], nextID = 2\<rparr> 0 1)) 1
     = None"
proof -
  let ?fs = "\<lparr>files = [0 \<mapsto> ''a\<newline>'', 1 \<mapsto> ''b\<newline>''], nextID = 2\<rparr>"
  have 1: "store_ok ?fs" by (simp add: store_ok_iff)
  have 2: "files ?fs 0 = Some ''a\<newline>''" by simp
  have 3: "files ?fs 1 = Some ''b\<newline>''" by simp
  have 4: "fst (write_log (quota_write 3) [] (merge ''a\<newline>'' ''b\<newline>'')) = Some IOError"
    by code_simp
  have 5: "fst (write_log stream_write [] (merge ''a\<newline>'' ''b\<newline>'')) = None"
    by code_simp
  from up_deletes_after_merge [OF 1 2 3, of "quota_write 3"] 4
    up_deletes_after_merge [OF 1 2 3, of stream_write] 5 1
  show ?thesis by simp
qed




section \<open>The memory of the merger\<close>


lemma pending_Nil [simp]: "pending [] h = []"
  by (simp add: pending_def)














end
